theory Spec2Isabelle
  imports Main "HOL-Library.Word"
begin

section \<open>Data model\<close>

text \<open>
  The header \<open>majority_element.h\<close> works on a range \<open>[begin, end)\<close> of forward
  iterators. The range is modelled as the list \<open>xs\<close> of its elements, an iterator as
  its offset from \<open>begin\<close>: \<open>begin\<close> is \<open>0\<close> and the sentinel \<open>end\<close> is
  \<open>length xs\<close>. The counters of the source are \<open>size_t\<close>, unsigned 64-bit integers
  whose \<open>++\<close> and \<open>--\<close> wrap around; \<open>std::distance\<close> yields a \<open>ptrdiff_t\<close>,
  a 64-bit integer read in two's complement.
\<close>

type_synonym size_t = "64 word"
type_synonym ptrdiff_t = "64 word"

text \<open>
  Reading through an iterator that is not inside the range (in particular through the
  sentinel \<open>end\<close>) is undefined behaviour in the source; in the model it is a fault.
\<close>

datatype fault = Deref_Past_End

definition deref :: "'a list \<Rightarrow> nat \<Rightarrow> fault + 'a" where
  "deref xs it = (if it < length xs then Inr (xs ! it) else Inl Deref_Past_End)"

text \<open>
  The loop \<open>for (_FwdIt it = first; it != fin; ++it) body\<close> over a state \<open>s\<close>.
  The iterator starts at or before \<open>fin\<close> and only moves forward by one, so that
  \<open>it != fin\<close> is \<open>it < fin\<close>; a fault in the body leaves the loop.
\<close>

function for_each :: "nat \<Rightarrow> nat \<Rightarrow> (nat \<Rightarrow> 's \<Rightarrow> fault + 's) \<Rightarrow> 's \<Rightarrow> fault + 's" where
  "for_each it fin body s =
     (if it < fin
      then (case body it s of Inl f \<Rightarrow> Inl f | Inr s' \<Rightarrow> for_each (Suc it) fin body s')
      else Inr s)"
  by pat_completeness auto
termination
  by (relation "measure (\<lambda>(it, fin, body, s). fin - it)") auto

declare for_each.simps [simp del]

section \<open>\<open>majority_element\<close>: the Boyer-Moore vote and its confirmation\<close>

text \<open>
  The body of the scanning loop (lines 52-67), on the pair \<open>(candidate, confidence)\<close>:
  \<^verbatim>\<open>
  if (confidence == 0) { candidate = it; ++confidence; }
  else if (comp(*candidate, *it)) ++confidence;
  else --confidence;
  \<close>
\<close>

fun vote_body :: "'a list \<Rightarrow> ('a \<Rightarrow> 'a \<Rightarrow> bool) \<Rightarrow> nat \<Rightarrow> nat \<times> size_t \<Rightarrow> fault + nat \<times> size_t" where
  "vote_body xs cmp it (candidate, confidence) =
     (if confidence = 0 then Inr (it, confidence + 1)
      else (case deref xs candidate of Inl f \<Rightarrow> Inl f | Inr c \<Rightarrow>
            (case deref xs it of Inl f \<Rightarrow> Inl f | Inr v \<Rightarrow>
             if cmp c v then Inr (candidate, confidence + 1)
             else Inr (candidate, confidence - 1))))"

text \<open>
  The body of the confirming loop (lines 71-78), on the pair \<open>(nmatches, ntotal)\<close>:
  \<^verbatim>\<open>
  if (comp(*candidate, *it)) ++nmatches;
  ++ntotal;
  \<close>
\<close>

fun count_body :: "'a list \<Rightarrow> ('a \<Rightarrow> 'a \<Rightarrow> bool) \<Rightarrow> nat \<Rightarrow> nat \<Rightarrow> size_t \<times> size_t \<Rightarrow> fault + size_t \<times> size_t" where
  "count_body xs cmp candidate it (nmatches, ntotal) =
     (case deref xs candidate of Inl f \<Rightarrow> Inl f | Inr c \<Rightarrow>
      (case deref xs it of Inl f \<Rightarrow> Inl f | Inr v \<Rightarrow>
       Inr (if cmp c v then nmatches + 1 else nmatches, ntotal + 1)))"

text \<open>
  The scanning pass: \<open>candidate = end; confidence = 0;\<close> and the first loop, run
  up to the iterator \<open>fin\<close>. The whole pass is \<open>vote_scan xs cmp (length xs)\<close>;
  for \<open>fin\<close> inside the range the result is the state in which the loop enters the
  iteration at \<open>fin\<close>.
\<close>

definition vote_scan :: "'a list \<Rightarrow> ('a \<Rightarrow> 'a \<Rightarrow> bool) \<Rightarrow> nat \<Rightarrow> fault + nat \<times> size_t" where
  "vote_scan xs cmp fin = for_each 0 fin (vote_body xs cmp) (length xs, 0)"

text \<open>
  \<open>majority_element(begin, end, comp)\<close>, lines 43-84: the scanning pass, the
  confirming pass from \<open>nmatches = 0, ntotal = 0\<close>, and
  \<^verbatim>\<open>return (((ntotal / 2) < nmatches) ? candidate : end);\<close>
  The division and the comparison are those of \<open>size_t\<close>, unsigned. The result is an
  iterator: an offset below \<open>length xs\<close>, or \<open>length xs\<close> for the sentinel
  \<open>end\<close>.
\<close>

definition majority_element :: "'a list \<Rightarrow> ('a \<Rightarrow> 'a \<Rightarrow> bool) \<Rightarrow> fault + nat" where
  "majority_element xs cmp =
     (case vote_scan xs cmp (length xs) of Inl f \<Rightarrow> Inl f
      | Inr (candidate, confidence) \<Rightarrow>
        (case for_each 0 (length xs) (count_body xs cmp candidate) (0, 0) of Inl f \<Rightarrow> Inl f
         | Inr (nmatches, ntotal) \<Rightarrow>
           Inr (if ntotal div 2 < nmatches then candidate else length xs)))"

text \<open>
  Modelled from the spec: \<open>std::equal_to<val_t>\<close> of the C++ standard library, the
  default equality-by-value comparator; it is \<open>operator==\<close> of the element type.
\<close>

definition equal_to :: "'a \<Rightarrow> 'a \<Rightarrow> bool" where
  "equal_to a b = (a = b)"

text \<open>
  The overload without a comparator, lines 100-104:
  \<^verbatim>\<open>return majority_element(begin, end, std::equal_to<val_t>());\<close>
\<close>

definition majority_element_default :: "'a list \<Rightarrow> fault + nat" where
  "majority_element_default xs = majority_element xs equal_to"

section \<open>\<open>is_majority_element\<close>: the check on a sorted range\<close>

text \<open>
  The header calls \<open>std::equal_range\<close> and \<open>std::distance\<close> of the C++ standard
  library and does not define them. The spec describes the first as the equal-range
  lookup by two binary searches, a lower bound and an upper bound, on a range with
  random access; the C++ standard defines its result as the pair of
  \<open>std::lower_bound\<close> and \<open>std::upper_bound\<close>.
\<close>

text \<open>
  Modelled from the spec: \<open>std::lower_bound\<close>, the binary search for the first
  position whose element is not less than \<open>x\<close>. It keeps a window
  \<open>[first, first + len)\<close> and halves it at \<open>middle = first + len / 2\<close>:
  \<^verbatim>\<open>
  while (len > 0) {
    half = len >> 1; middle = first + half;
    if (comp(*middle, x)) { first = middle + 1; len = len - half - 1; }
    else len = half;
  }
  return first;
  \<close>
\<close>

function lower_bound :: "'a list \<Rightarrow> nat \<Rightarrow> nat \<Rightarrow> 'a \<Rightarrow> ('a \<Rightarrow> 'a \<Rightarrow> bool) \<Rightarrow> fault + nat" where
  "lower_bound xs first len x cmp =
     (if 0 < len
      then (case deref xs (first + len div 2) of Inl f \<Rightarrow> Inl f | Inr v \<Rightarrow>
            if cmp v x
            then lower_bound xs (first + len div 2 + 1) (len - len div 2 - 1) x cmp
            else lower_bound xs first (len div 2) x cmp)
      else Inr first)"
  by pat_completeness auto
termination
  by (relation "measure (\<lambda>(xs, first, len, x, cmp). len)") auto

text \<open>
  Modelled from the spec: \<open>std::upper_bound\<close>, the binary search for the first
  position whose element is greater than \<open>x\<close>:
  \<^verbatim>\<open>
  while (len > 0) {
    half = len >> 1; middle = first + half;
    if (comp(x, *middle)) len = half;
    else { first = middle + 1; len = len - half - 1; }
  }
  return first;
  \<close>
\<close>

function upper_bound :: "'a list \<Rightarrow> nat \<Rightarrow> nat \<Rightarrow> 'a \<Rightarrow> ('a \<Rightarrow> 'a \<Rightarrow> bool) \<Rightarrow> fault + nat" where
  "upper_bound xs first len x cmp =
     (if 0 < len
      then (case deref xs (first + len div 2) of Inl f \<Rightarrow> Inl f | Inr v \<Rightarrow>
            if cmp x v
            then upper_bound xs first (len div 2) x cmp
            else upper_bound xs (first + len div 2 + 1) (len - len div 2 - 1) x cmp)
      else Inr first)"
  by pat_completeness auto
termination
  by (relation "measure (\<lambda>(xs, first, len, x, cmp). len)") auto

declare lower_bound.simps [simp del] upper_bound.simps [simp del]

text \<open>
  Modelled from the spec: \<open>std::equal_range(begin, end, x, comp)\<close>, the pair of the
  lower and the upper bound of \<open>x\<close> in the whole range.
\<close>

definition equal_range :: "'a list \<Rightarrow> 'a \<Rightarrow> ('a \<Rightarrow> 'a \<Rightarrow> bool) \<Rightarrow> fault + nat \<times> nat" where
  "equal_range xs x cmp =
     (case lower_bound xs 0 (length xs) x cmp of Inl f \<Rightarrow> Inl f | Inr lo \<Rightarrow>
      (case upper_bound xs 0 (length xs) x cmp of Inl f \<Rightarrow> Inl f | Inr hi \<Rightarrow> Inr (lo, hi)))"

text \<open>
  Modelled from the spec: \<open>std::distance(first, fin)\<close> on two iterators of a range
  with random access, the difference \<open>fin - first\<close> as a \<open>ptrdiff_t\<close>.
\<close>

definition distance :: "nat \<Rightarrow> nat \<Rightarrow> ptrdiff_t" where
  "distance first fin = of_nat fin - of_nat first"

text \<open>
  \<open>is_majority_element(begin, end, x, comp)\<close>, lines 121-132:
  \<^verbatim>\<open>
  auto range = std::equal_range(begin, end, x, comp);
  return (std::distance(range.first, range.second) > (std::distance(begin, end) >> 1));
  \<close>
  The comparison is a signed one, and \<open>>> 1\<close> on a \<open>ptrdiff_t\<close> is the arithmetic
  shift.
\<close>

definition is_majority_element :: "'a list \<Rightarrow> 'a \<Rightarrow> ('a \<Rightarrow> 'a \<Rightarrow> bool) \<Rightarrow> fault + bool" where
  "is_majority_element xs x cmp =
     (case equal_range xs x cmp of Inl f \<Rightarrow> Inl f
      | Inr (lo, hi) \<Rightarrow> Inr (signed_drop_bit 1 (distance 0 (length xs)) <s distance lo hi))"

text \<open>
  Modelled from the spec: \<open>std::less<val_t>\<close> of the C++ standard library, the
  default ordering by value; it is \<open>operator<\<close> of the element type.
\<close>

definition std_less :: "'a::ord \<Rightarrow> 'a \<Rightarrow> bool" where
  "std_less a b = (a < b)"

text \<open>
  The overload without a comparator, lines 149-155:
  \<^verbatim>\<open>return is_majority_element(begin, end, x, std::less<val_t>());\<close>
\<close>

definition is_majority_element_default :: "'a::ord list \<Rightarrow> 'a \<Rightarrow> fault + bool" where
  "is_majority_element_default xs x = is_majority_element xs x std_less"

section \<open>Notions used in the statements and in the proofs\<close>

text \<open>
  \<open>matches cmp v ys\<close> is the number of elements \<open>e\<close> of \<open>ys\<close> with \<open>cmp v e\<close>:
  what \<open>nmatches\<close> counts for \<open>v = *candidate\<close>.
\<close>

definition matches :: "('a \<Rightarrow> 'a \<Rightarrow> bool) \<Rightarrow> 'a \<Rightarrow> 'a list \<Rightarrow> nat" where
  "matches cmp v ys = length (filter (cmp v) ys)"

text \<open>
  The invariant of the scanning loop before the iteration at offset \<open>k\<close>: before the
  first iteration the candidate is \<open>end\<close> and the confidence is zero; afterwards the
  candidate is an offset already visited.
\<close>

definition scan_inv :: "'a list \<Rightarrow> nat \<Rightarrow> nat \<times> size_t \<Rightarrow> bool" where
  "scan_inv xs k s = (case s of (candidate, confidence) \<Rightarrow>
     (if k = 0 then candidate = length xs \<and> confidence = 0 else candidate < k))"

text \<open>
  The invariant of the Boyer-Moore vote before the iteration at offset \<open>k\<close>, for a
  range shorter than \<open>2 ^ 64\<close>: the confidence is at most \<open>k\<close>, a positive
  confidence comes with a candidate already visited, and twice the number of matches
  of any value \<open>v\<close> among the first \<open>k\<close> elements is bounded by \<open>k\<close> plus the
  confidence when \<open>v\<close> matches the candidate, by \<open>k\<close> minus the confidence
  otherwise.
\<close>

definition vote_bound :: "'a list \<Rightarrow> ('a \<Rightarrow> 'a \<Rightarrow> bool) \<Rightarrow> nat \<Rightarrow> nat \<times> size_t \<Rightarrow> 'a \<Rightarrow> bool" where
  "vote_bound xs cmp k s v = (case s of (candidate, confidence) \<Rightarrow>
     (if confidence \<noteq> 0 \<and> cmp (xs ! candidate) v
      then 2 * matches cmp v (take k xs) \<le> k + unat confidence
      else 2 * matches cmp v (take k xs) + unat confidence \<le> k))"

definition vote_inv :: "'a list \<Rightarrow> ('a \<Rightarrow> 'a \<Rightarrow> bool) \<Rightarrow> nat \<Rightarrow> nat \<times> size_t \<Rightarrow> bool" where
  "vote_inv xs cmp k s = (case s of (candidate, confidence) \<Rightarrow>
     unat confidence \<le> k \<and> (confidence \<noteq> 0 \<longrightarrow> candidate < k) \<and>
     (\<forall>v. vote_bound xs cmp k s v))"

text \<open>
  A window \<open>[first, first + len)\<close> of \<open>xs\<close> is partitioned by \<open>P\<close> when the
  elements with \<open>P\<close> come before the others; \<open>r\<close> is then its partition point when
  exactly the elements of the window before \<open>r\<close> have \<open>P\<close>. This is what
  \<open>std::lower_bound\<close> and \<open>std::upper_bound\<close> ask of their range and promise of
  their result.
\<close>

definition partitioned :: "'a list \<Rightarrow> nat \<Rightarrow> nat \<Rightarrow> ('a \<Rightarrow> bool) \<Rightarrow> bool" where
  "partitioned xs first len P =
     (\<forall>i j. first \<le> i \<and> i < j \<and> j < first + len \<and> P (xs ! j) \<longrightarrow> P (xs ! i))"

definition partition_point :: "'a list \<Rightarrow> nat \<Rightarrow> nat \<Rightarrow> ('a \<Rightarrow> bool) \<Rightarrow> nat \<Rightarrow> bool" where
  "partition_point xs first len P r =
     (first \<le> r \<and> r \<le> first + len \<and>
      (\<forall>i. first \<le> i \<and> i < r \<longrightarrow> P (xs ! i)) \<and>
      (\<forall>i. r \<le> i \<and> i < first + len \<longrightarrow> \<not> P (xs ! i)))"

text \<open>
  Two values are equivalent under an ordering comparator when neither is less than the
  other: the elements that \<open>std::equal_range\<close> brackets. For a strict total order
  the equivalent values are the equal ones.
\<close>

definition equivalent :: "('a \<Rightarrow> 'a \<Rightarrow> bool) \<Rightarrow> 'a \<Rightarrow> 'a \<Rightarrow> bool" where
  "equivalent cmp a b = (\<not> cmp a b \<and> \<not> cmp b a)"

text \<open>
  A range is sorted by a comparator when no element is less than an earlier one.
\<close>

definition sorted_by :: "('a \<Rightarrow> 'a \<Rightarrow> bool) \<Rightarrow> 'a list \<Rightarrow> bool" where
  "sorted_by cmp xs = sorted_wrt (\<lambda>a b. \<not> cmp b a) xs"

text \<open>
  A comparator a caller may pass to \<open>is_majority_element\<close>: numbers ordered by
  their tens, a strict weak ordering under which \<open>10\<close>, \<open>11\<close> and \<open>15\<close> are
  equivalent and not equal.
\<close>

definition less_by_tens :: "nat \<Rightarrow> nat \<Rightarrow> bool" where
  "less_by_tens a b = (a div 10 < b div 10)"

section \<open>The loops\<close>

lemma for_each_stop: "fin \<le> it \<Longrightarrow> for_each it fin body s = Inr s"
  by (simp add: for_each.simps)

lemma for_each_step:
  "it < fin \<Longrightarrow> for_each it fin body s =
     (case body it s of Inl f \<Rightarrow> Inl f | Inr s' \<Rightarrow> for_each (Suc it) fin body s')"
  by (subst for_each.simps) simp

lemma for_each_Suc:
  "it \<le> fin \<Longrightarrow> for_each it (Suc fin) body s =
     (case for_each it fin body s of Inl f \<Rightarrow> Inl f | Inr s' \<Rightarrow> body fin s')"
proof (induction it fin body s rule: for_each.induct)
  case (1 it fin body s)
  show ?case
  proof (cases "it < fin")
    case True
    show ?thesis
    proof (cases "body it s")
      case (Inl f)
      with True show ?thesis by (simp add: for_each_step)
    next
      case (Inr s')
      with True "1.IH" [of s'] show ?thesis by (simp add: for_each_step)
    qed
  next
    case False
    with "1.prems" have "it = fin" by simp
    then show ?thesis by (simp add: for_each_step for_each_stop split: sum.split)
  qed
qed

lemma for_each_invariant:
  assumes "\<And>i s. i < fin \<Longrightarrow> I i s \<Longrightarrow> \<exists>s'. body i s = Inr s' \<and> I (Suc i) s'"
    and "I 0 s0"
  shows "\<exists>s. for_each 0 fin body s0 = Inr s \<and> I fin s"
  using assms(1)
proof (induction fin)
  case 0
  with assms(2) show ?case by (simp add: for_each_stop)
next
  case (Suc fin)
  then obtain s where s: "for_each 0 fin body s0 = Inr s" "I fin s"
    by (metis less_Suc_eq)
  from Suc.prems [of fin s] s(2) obtain s' where "body fin s = Inr s'" "I (Suc fin) s'"
    by auto
  with s(1) show ?case by (simp add: for_each_Suc)
qed


subsection \<open>The scanning pass reads no past-the-end iterator\<close>

lemma vote_body_scan_inv:
  assumes "k < length xs" and "scan_inv xs k s"
  shows "\<exists>s'. vote_body xs cmp k s = Inr s' \<and> scan_inv xs (Suc k) s'"
proof -
  obtain candidate confidence where s: "s = (candidate, confidence)"
    by (cases s)
  show ?thesis
  proof (cases "confidence = 0")
    case True
    with s show ?thesis by (simp add: scan_inv_def)
  next
    case False
    with assms(2) s have "candidate < k"
      by (simp add: scan_inv_def split: if_splits)
    with assms(1) False s show ?thesis
      by (simp add: scan_inv_def deref_def)
  qed
qed

lemma vote_scan_total:
  assumes "k \<le> length xs"
  shows "\<exists>s. vote_scan xs cmp k = Inr s \<and> scan_inv xs k s"
  unfolding vote_scan_def
proof (rule for_each_invariant)
  show "scan_inv xs 0 (length xs, 0)"
    by (simp add: scan_inv_def)
next
  fix i and s :: "nat \<times> size_t"
  assume "i < k" and "scan_inv xs i s"
  with assms show "\<exists>s'. vote_body xs cmp i s = Inr s' \<and> scan_inv xs (Suc i) s'"
    by (intro vote_body_scan_inv) simp_all
qed

lemma vote_scan_candidate:
  assumes "xs \<noteq> []"
  obtains candidate confidence
  where "vote_scan xs cmp (length xs) = Inr (candidate, confidence)" and "candidate < length xs"
proof -
  from vote_scan_total [of "length xs" xs cmp]
  obtain s where s: "vote_scan xs cmp (length xs) = Inr s" "scan_inv xs (length xs) s"
    by auto
  obtain candidate confidence where "s = (candidate, confidence)"
    by (cases s)
  with s assms that show thesis
    by (simp add: scan_inv_def)
qed

lemma vote_scan_Nil: "vote_scan [] cmp 0 = Inr (0, 0)"
  by (simp add: vote_scan_def for_each_stop)

subsection \<open>The confirming pass counts the matches\<close>

lemma matches_le_length: "matches cmp v ys \<le> length ys"
  by (simp add: matches_def)

text \<open>With \<open>std::equal_to\<close> the matches of \<open>v\<close> are its occurrences.\<close>

lemma matches_equal_to: "matches equal_to v ys = count_list ys v"
  by (induction ys) (simp_all add: matches_def equal_to_def)

lemma matches_take_Suc:
  "k < length xs \<Longrightarrow>
   matches cmp v (take (Suc k) xs) = matches cmp v (take k xs) + (if cmp v (xs ! k) then 1 else 0)"
  by (simp add: matches_def take_Suc_conv_app_nth)

lemma count_pass:
  assumes "candidate < length xs" and "k \<le> length xs"
  shows "for_each 0 k (count_body xs cmp candidate) (0, 0) =
           Inr (of_nat (matches cmp (xs ! candidate) (take k xs)), of_nat k)"
proof -
  let ?I = "\<lambda>i s. s = (of_nat (matches cmp (xs ! candidate) (take i xs)) :: size_t, of_nat i :: size_t)"
  have "\<exists>s. for_each 0 k (count_body xs cmp candidate) (0, 0) = Inr s \<and> ?I k s"
  proof (rule for_each_invariant)
    show "?I 0 (0, 0)"
      by (simp add: matches_def)
  next
    fix i and s :: "size_t \<times> size_t"
    assume "i < k" and "?I i s"
    with assms show "\<exists>s'. count_body xs cmp candidate i s = Inr s' \<and> ?I (Suc i) s'"
      by (simp add: deref_def matches_take_Suc)
  qed
  then show ?thesis by simp
qed

text \<open>The result of \<open>majority_element\<close> in terms of the candidate of the scan.\<close>

lemma majority_element_Nil: "majority_element [] cmp = Inr 0"
  by (simp add: majority_element_def vote_scan_Nil for_each_stop)

lemma majority_element_candidate:
  assumes "vote_scan xs cmp (length xs) = Inr (candidate, confidence)"
    and "candidate < length xs"
  shows "majority_element xs cmp =
           Inr (if (of_nat (length xs) :: size_t) div 2 < of_nat (matches cmp (xs ! candidate) xs)
                then candidate else length xs)"
  using assms by (simp add: majority_element_def count_pass)


subsection \<open>Counters that do not wrap\<close>


lemma unat_size_t: "n < 2 ^ 64 \<Longrightarrow> unat (of_nat n :: size_t) = n"
  by (simp add: unat_of_nat)

lemma size_t_threshold:
  assumes "n < 2 ^ 64" and "m \<le> n"
  shows "((of_nat n :: size_t) div 2 < of_nat m) = (n div 2 < m)"
proof -
  from assms have "m < 2 ^ 64" by simp
  with assms(1) show ?thesis
    by (simp add: word_less_nat_alt unat_div unat_size_t)
qed

lemma sint_ptrdiff_t:
  assumes "- (2 ^ 63) \<le> k" and "k < 2 ^ 63"
  shows "sint (of_int k :: ptrdiff_t) = k"
  using assms by (simp add: signed_of_int signed_take_bit_int_eq_self)

lemma sint_distance:
  assumes "lo < 2 ^ 63" and "hi < 2 ^ 63"
  shows "sint (distance lo hi) = int hi - int lo"
proof -
  have "distance lo hi = of_int (int hi - int lo)"
    by (simp add: distance_def)
  moreover from assms have "- (2 ^ 63) \<le> int hi - int lo" "int hi - int lo < 2 ^ 63"
    by simp_all
  ultimately show ?thesis
    by (simp only: sint_ptrdiff_t)
qed

lemma ptrdiff_t_threshold:
  assumes "n < 2 ^ 63" and "lo \<le> n" and "hi \<le> n"
  shows "(signed_drop_bit 1 (distance 0 n) <s distance lo hi) = (int n div 2 < int hi - int lo)"
proof -
  from assms have "lo < 2 ^ 63" "hi < 2 ^ 63" by simp_all
  with assms(1) show ?thesis
    by (simp add: word_sless_alt sint_signed_drop_bit_eq sint_distance drop_bit_eq_div)
qed

subsection \<open>The Boyer-Moore invariant is kept\<close>

lemma unat_incr:
  fixes c :: size_t
  assumes "unat c \<le> k" and "k < n" and "n < 2 ^ 64"
  shows "unat (c + 1) = Suc (unat c)"
proof -
  from assms have "unat c + unat (1 :: size_t) < 2 ^ 64"
    by simp
  then show ?thesis
    by (simp add: unat_word_ariths)
qed

lemma vote_body_reset:
  assumes eq: "equivp cmp" and k: "k < length xs"
    and inv: "vote_inv xs cmp k (candidate, 0)"
  shows "vote_inv xs cmp (Suc k) (k, 1)"
proof -
  have "vote_bound xs cmp (Suc k) (k, 1) v" for v
  proof -
    from inv have "vote_bound xs cmp k (candidate, 0) v"
      by (simp add: vote_inv_def)
    then have m: "2 * matches cmp v (take k xs) \<le> k"
      by (simp add: vote_bound_def)
    from eq have "cmp v (xs ! k) = cmp (xs ! k) v"
      by (auto elim: equivp_symp)
    with m k show ?thesis
      by (simp add: vote_bound_def matches_take_Suc)
  qed
  then show ?thesis
    by (simp add: vote_inv_def)
qed

lemma vote_body_incr:
  assumes eq: "equivp cmp" and k: "k < length xs" and n: "length xs < 2 ^ 64"
    and inv: "vote_inv xs cmp k (candidate, confidence)"
    and c: "confidence \<noteq> 0" "cmp (xs ! candidate) (xs ! k)"
  shows "vote_inv xs cmp (Suc k) (candidate, confidence + 1)"
proof -
  from inv have le: "unat confidence \<le> k" and cand: "candidate < k"
    using c(1) by (simp_all add: vote_inv_def)
  from le k n have u: "unat (confidence + 1) = Suc (unat confidence)"
    by (rule unat_incr)
  then have nz: "confidence + 1 \<noteq> 0"
    by (metis Zero_not_Suc unat_0)
  have "vote_bound xs cmp (Suc k) (candidate, confidence + 1) v" for v
  proof -
    from eq c(2) have same: "cmp v (xs ! k) = cmp (xs ! candidate) v"
      by (meson equivp_symp equivp_transp)
    from inv have "vote_bound xs cmp k (candidate, confidence) v"
      by (simp add: vote_inv_def)
    with same k c(1) u nz show ?thesis
      by (simp add: vote_bound_def matches_take_Suc split: if_splits)
  qed
  with le cand u show ?thesis
    by (simp add: vote_inv_def)
qed

lemma vote_body_decr:
  assumes eq: "equivp cmp" and k: "k < length xs"
    and inv: "vote_inv xs cmp k (candidate, confidence)"
    and c: "confidence \<noteq> 0" "\<not> cmp (xs ! candidate) (xs ! k)"
  shows "vote_inv xs cmp (Suc k) (candidate, confidence - 1)"
proof -
  from inv have le: "unat confidence \<le> k" and cand: "candidate < k"
    using c(1) by (simp_all add: vote_inv_def)
  from c(1) have u: "unat (confidence - 1) = unat confidence - 1"
    by (rule unat_minus_one)
  from c(1) have pos: "0 < unat confidence"
    by (simp add: unat_gt_0)
  have z: "(confidence - 1 = 0) = (unat confidence = 1)"
    using u pos by (metis One_nat_def Suc_pred diff_self_eq_0 unat_eq_zero)
  have "vote_bound xs cmp (Suc k) (candidate, confidence - 1) v" for v
  proof -
    from eq c(2) have other: "cmp (xs ! candidate) v \<Longrightarrow> \<not> cmp v (xs ! k)"
      by (meson equivp_transp)
    from inv have "vote_bound xs cmp k (candidate, confidence) v"
      by (simp add: vote_inv_def)
    with other k pos z u c(1) show ?thesis
      by (auto simp add: vote_bound_def matches_take_Suc split: if_splits)
  qed
  with le cand u show ?thesis
    by (simp add: vote_inv_def)
qed

lemma vote_body_vote_inv:
  assumes eq: "equivp cmp" and k: "k < length xs" and n: "length xs < 2 ^ 64"
    and inv: "vote_inv xs cmp k s"
  shows "\<exists>s'. vote_body xs cmp k s = Inr s' \<and> vote_inv xs cmp (Suc k) s'"
proof -
  obtain candidate confidence where s: "s = (candidate, confidence)"
    by (cases s)
  show ?thesis
  proof (cases "confidence = 0")
    case True
    with vote_body_reset [OF eq k, of candidate] inv s show ?thesis
      by simp
  next
    case False
    with inv s have "candidate < k"
      by (simp add: vote_inv_def)
    with k False s
      vote_body_incr [OF eq k n, of candidate confidence]
      vote_body_decr [OF eq k, of candidate confidence] inv
    show ?thesis
      by (simp add: deref_def)
  qed
qed

lemma vote_scan_vote_inv:
  assumes "equivp cmp" and "length xs < 2 ^ 64"
  shows "\<exists>s. vote_scan xs cmp (length xs) = Inr s \<and> vote_inv xs cmp (length xs) s"
  unfolding vote_scan_def
proof (rule for_each_invariant)
  show "vote_inv xs cmp 0 (length xs, 0)"
    by (simp add: vote_inv_def vote_bound_def matches_def)
next
  fix i and s :: "nat \<times> size_t"
  assume "i < length xs" and "vote_inv xs cmp i s"
  with assms show "\<exists>s'. vote_body xs cmp i s = Inr s' \<and> vote_inv xs cmp (Suc i) s'"
    by (intro vote_body_vote_inv)
qed


lemma matches_equivp:
  assumes "equivp cmp" and "cmp c v"
  shows "matches cmp c ys = matches cmp v ys"
proof -
  from assms have "cmp c e = cmp v e" for e
    by (meson equivp_symp equivp_transp)
  then have "cmp c = cmp v"
    by (simp add: fun_eq_iff)
  then show ?thesis
    by (simp add: matches_def)
qed

lemma equivp_equal_to: "equivp equal_to"
  by (auto intro!: equivpI reflpI sympI transpI simp add: equal_to_def)

subsection \<open>The binary searches find the partition point\<close>

lemma partitioned_right:
  assumes "partitioned xs first len P" and "0 < len"
  shows "partitioned xs (first + len div 2 + 1) (len - len div 2 - 1) P"
proof -
  from assms(2) have "first + len div 2 + 1 + (len - len div 2 - 1) = first + len"
    by linarith
  with assms(1) show ?thesis
    unfolding partitioned_def by (metis add_leD1 le_trans)
qed

lemma partitioned_left:
  assumes "partitioned xs first len P"
  shows "partitioned xs first (len div 2) P"
proof -
  have "first + len div 2 \<le> first + len"
    by simp
  with assms show ?thesis
    unfolding partitioned_def by (meson less_le_trans)
qed

lemma partition_point_right:
  assumes "partitioned xs first len P" and "0 < len" and "P (xs ! (first + len div 2))"
    and "partition_point xs (first + len div 2 + 1) (len - len div 2 - 1) P r"
  shows "partition_point xs first len P r"
proof -
  let ?mid = "first + len div 2"
  from assms(2) have e: "?mid + 1 + (len - len div 2 - 1) = first + len"
    by linarith
  from assms(2) have mid: "?mid < first + len"
    by simp
  have "P (xs ! i)" if "first \<le> i" "i < r" for i
  proof (cases "i \<le> ?mid")
    case True
    show ?thesis
    proof (cases "i = ?mid")
      case True
      with assms(3) show ?thesis by simp
    next
      case False
      with True that(1) mid assms(1,3) show ?thesis
        unfolding partitioned_def by (metis le_neq_implies_less)
    qed
  next
    case False
    with that(2) assms(4) show ?thesis
      by (simp add: partition_point_def)
  qed
  moreover from assms(4) e have "first \<le> r" "r \<le> first + len"
    "\<forall>i. r \<le> i \<and> i < first + len \<longrightarrow> \<not> P (xs ! i)"
    by (simp_all add: partition_point_def)
  ultimately show ?thesis
    by (simp add: partition_point_def)
qed

lemma partition_point_left:
  assumes "partitioned xs first len P" and "0 < len" and "\<not> P (xs ! (first + len div 2))"
    and "partition_point xs first (len div 2) P r"
  shows "partition_point xs first len P r"
proof -
  let ?mid = "first + len div 2"
  have "\<not> P (xs ! i)" if "r \<le> i" "i < first + len" for i
  proof (cases "i < ?mid")
    case True
    with that(1) assms(4) show ?thesis
      by (simp add: partition_point_def)
  next
    case False
    show ?thesis
    proof (cases "i = ?mid")
      case True
      with assms(3) show ?thesis by simp
    next
      case ne: False
      from assms(4) have "first \<le> ?mid"
        by simp
      with ne False that(2) assms(1,3) show ?thesis
        unfolding partitioned_def by (metis linorder_neqE_nat)
    qed
  qed
  moreover from assms(4) have "first \<le> r" "r \<le> first + len div 2"
    "\<forall>i. first \<le> i \<and> i < r \<longrightarrow> P (xs ! i)"
    by (simp_all add: partition_point_def)
  moreover have "first + len div 2 \<le> first + len"
    by simp
  ultimately show ?thesis
    by (simp add: partition_point_def)
qed

lemma lower_bound_partition_point:
  assumes "first + len \<le> length xs" and "partitioned xs first len (\<lambda>v. cmp v x)"
  shows "\<exists>r. lower_bound xs first len x cmp = Inr r \<and> partition_point xs first len (\<lambda>v. cmp v x) r"
  using assms
proof (induction xs first len x cmp rule: lower_bound.induct)
  case (1 xs first len x cmp)
  show ?case
  proof (cases "0 < len")
    case False
    then show ?thesis
      by (auto simp add: lower_bound.simps partition_point_def)
  next
    case True
    let ?mid = "first + len div 2"
    from True "1.prems"(1) have d: "deref xs ?mid = Inr (xs ! ?mid)"
      by (simp add: deref_def)
    show ?thesis
    proof (cases "cmp (xs ! ?mid) x")
      case c: True
      from True "1.prems"(1) have "?mid + 1 + (len - len div 2 - 1) \<le> length xs"
        by linarith
      with "1.IH"(1) [OF True d c] partitioned_right [OF "1.prems"(2) True]
      obtain r where r: "lower_bound xs (?mid + 1) (len - len div 2 - 1) x cmp = Inr r"
        "partition_point xs (?mid + 1) (len - len div 2 - 1) (\<lambda>v. cmp v x) r"
        by blast
      from True d c r(1) have "lower_bound xs first len x cmp = Inr r"
        by (subst lower_bound.simps) simp
      with partition_point_right [OF "1.prems"(2) True c r(2)] show ?thesis
        by simp
    next
      case c: False
      from "1.prems"(1) have "first + len div 2 \<le> length xs"
        by linarith
      with "1.IH"(2) [OF True d c] partitioned_left [OF "1.prems"(2)]
      obtain r where r: "lower_bound xs first (len div 2) x cmp = Inr r"
        "partition_point xs first (len div 2) (\<lambda>v. cmp v x) r"
        by blast
      from True d c r(1) have "lower_bound xs first len x cmp = Inr r"
        by (subst lower_bound.simps) simp
      with partition_point_left [OF "1.prems"(2) True c r(2)] show ?thesis
        by simp
    qed
  qed
qed

lemma upper_bound_partition_point:
  assumes "first + len \<le> length xs" and "partitioned xs first len (\<lambda>v. \<not> cmp x v)"
  shows "\<exists>r. upper_bound xs first len x cmp = Inr r \<and> partition_point xs first len (\<lambda>v. \<not> cmp x v) r"
  using assms
proof (induction xs first len x cmp rule: upper_bound.induct)
  case (1 xs first len x cmp)
  show ?case
  proof (cases "0 < len")
    case False
    then show ?thesis
      by (auto simp add: upper_bound.simps partition_point_def)
  next
    case True
    let ?mid = "first + len div 2"
    from True "1.prems"(1) have d: "deref xs ?mid = Inr (xs ! ?mid)"
      by (simp add: deref_def)
    show ?thesis
    proof (cases "cmp x (xs ! ?mid)")
      case c: False
      from True "1.prems"(1) have "?mid + 1 + (len - len div 2 - 1) \<le> length xs"
        by linarith
      with "1.IH"(2) [OF True d c] partitioned_right [OF "1.prems"(2) True]
      obtain r where r: "upper_bound xs (?mid + 1) (len - len div 2 - 1) x cmp = Inr r"
        "partition_point xs (?mid + 1) (len - len div 2 - 1) (\<lambda>v. \<not> cmp x v) r"
        by blast
      from True d c r(1) have "upper_bound xs first len x cmp = Inr r"
        by (subst upper_bound.simps) simp
      with partition_point_right [OF "1.prems"(2) True c r(2)] show ?thesis
        by simp
    next
      case c: True
      from "1.prems"(1) have "first + len div 2 \<le> length xs"
        by linarith
      with "1.IH"(1) [OF True d c] partitioned_left [OF "1.prems"(2)]
      obtain r where r: "upper_bound xs first (len div 2) x cmp = Inr r"
        "partition_point xs first (len div 2) (\<lambda>v. \<not> cmp x v) r"
        by blast
      from c have c': "\<not> \<not> cmp x (xs ! ?mid)"
        by simp
      from True d c r(1) have "upper_bound xs first len x cmp = Inr r"
        by (subst upper_bound.simps) simp
      with partition_point_left [OF "1.prems"(2) True c' r(2)] show ?thesis
        by simp
    qed
  qed
qed


lemma lower_bound_bounds:
  "lower_bound xs first len x cmp = Inr r \<Longrightarrow> first \<le> r \<and> r \<le> first + len"
proof (induction xs first len x cmp rule: lower_bound.induct)
  case (1 xs first len x cmp)
  show ?case
  proof (cases "0 < len")
    case False
    with "1.prems" show ?thesis
      by (simp add: lower_bound.simps)
  next
    case True
    from "1.prems" True obtain v where d: "deref xs (first + len div 2) = Inr v"
      by (subst (asm) lower_bound.simps) (simp split: sum.splits)
    show ?thesis
    proof (cases "cmp v x")
      case c: True
      with "1.prems" True d
      have "lower_bound xs (first + len div 2 + 1) (len - len div 2 - 1) x cmp = Inr r"
        by (subst (asm) lower_bound.simps) simp
      from "1.IH"(1) [OF True d c this] True show ?thesis
        by linarith
    next
      case c: False
      with "1.prems" True d have "lower_bound xs first (len div 2) x cmp = Inr r"
        by (subst (asm) lower_bound.simps) simp
      from "1.IH"(2) [OF True d c this] show ?thesis
        by linarith
    qed
  qed
qed

lemma upper_bound_bounds:
  "upper_bound xs first len x cmp = Inr r \<Longrightarrow> first \<le> r \<and> r \<le> first + len"
proof (induction xs first len x cmp rule: upper_bound.induct)
  case (1 xs first len x cmp)
  show ?case
  proof (cases "0 < len")
    case False
    with "1.prems" show ?thesis
      by (simp add: upper_bound.simps)
  next
    case True
    from "1.prems" True obtain v where d: "deref xs (first + len div 2) = Inr v"
      by (subst (asm) upper_bound.simps) (simp split: sum.splits)
    show ?thesis
    proof (cases "cmp x v")
      case c: False
      with "1.prems" True d
      have "upper_bound xs (first + len div 2 + 1) (len - len div 2 - 1) x cmp = Inr r"
        by (subst (asm) upper_bound.simps) simp
      from "1.IH"(2) [OF True d c this] True show ?thesis
        by linarith
    next
      case c: True
      with "1.prems" True d have "upper_bound xs first (len div 2) x cmp = Inr r"
        by (subst (asm) upper_bound.simps) simp
      from "1.IH"(1) [OF True d c this] show ?thesis
        by linarith
    qed
  qed
qed

lemma equal_range_bounds:
  assumes "equal_range xs x cmp = Inr (lo, hi)"
  shows "lo \<le> length xs \<and> hi \<le> length xs"
proof -
  from assms have "lower_bound xs 0 (length xs) x cmp = Inr lo"
    "upper_bound xs 0 (length xs) x cmp = Inr hi"
    by (simp_all add: equal_range_def split: sum.splits)
  then show ?thesis
    using lower_bound_bounds [of xs 0 "length xs" x cmp lo]
      upper_bound_bounds [of xs 0 "length xs" x cmp hi] by simp
qed

lemma is_majority_element_distance:
  assumes "equal_range xs x cmp = Inr (lo, hi)" and "length xs < 2 ^ 63"
  shows "is_majority_element xs x cmp = Inr (int (length xs) div 2 < int hi - int lo)"
proof -
  from assms(1) have "lo \<le> length xs" "hi \<le> length xs"
    by (simp_all add: equal_range_bounds)
  with assms(2) have
    "(signed_drop_bit 1 (distance 0 (length xs)) <s distance lo hi) =
     (int (length xs) div 2 < int hi - int lo)"
    by (rule ptrdiff_t_threshold)
  with assms(1) show ?thesis
    by (simp add: is_majority_element_def)
qed

subsection \<open>A sorted range is partitioned\<close>

lemma less_between:
  assumes "transp cmp" and "transp (equivalent cmp)" and "cmp a c"
  shows "cmp a b \<or> cmp b c"
proof (rule ccontr)
  assume n: "\<not> (cmp a b \<or> cmp b c)"
  have "\<not> cmp b a"
  proof
    assume "cmp b a"
    with assms(1,3) have "cmp b c"
      by (blast dest: transpD)
    with n show False
      by simp
  qed
  with n have ab: "equivalent cmp a b"
    by (simp add: equivalent_def)
  have "\<not> cmp c b"
  proof
    assume "cmp c b"
    with assms(1,3) have "cmp a b"
      by (blast dest: transpD)
    with n show False
      by simp
  qed
  with n have "equivalent cmp b c"
    by (simp add: equivalent_def)
  with assms(2) ab have "equivalent cmp a c"
    by (blast dest: transpD)
  with assms(3) show False
    by (simp add: equivalent_def)
qed

lemma sorted_partitioned_lower:
  assumes "transp cmp" and "transp (equivalent cmp)" and "sorted_by cmp xs"
  shows "partitioned xs 0 (length xs) (\<lambda>v. cmp v x)"
  unfolding partitioned_def
proof (intro allI impI)
  fix i j
  assume a: "0 \<le> i \<and> i < j \<and> j < 0 + length xs \<and> cmp (xs ! j) x"
  then have "i < j" "j < length xs"
    by simp_all
  with assms(3) have "\<not> cmp (xs ! j) (xs ! i)"
    unfolding sorted_by_def by (rule sorted_wrt_nth_less)
  moreover from a have "cmp (xs ! j) x"
    by simp
  with assms(1,2) have "cmp (xs ! j) (xs ! i) \<or> cmp (xs ! i) x"
    by (rule less_between)
  ultimately show "cmp (xs ! i) x"
    by simp
qed

lemma sorted_partitioned_upper:
  assumes "transp cmp" and "transp (equivalent cmp)" and "sorted_by cmp xs"
  shows "partitioned xs 0 (length xs) (\<lambda>v. \<not> cmp x v)"
  unfolding partitioned_def
proof (intro allI impI)
  fix i j
  assume a: "0 \<le> i \<and> i < j \<and> j < 0 + length xs \<and> \<not> cmp x (xs ! j)"
  then have "i < j" "j < length xs"
    by simp_all
  with assms(3) have n: "\<not> cmp (xs ! j) (xs ! i)"
    unfolding sorted_by_def by (rule sorted_wrt_nth_less)
  show "\<not> cmp x (xs ! i)"
  proof
    assume "cmp x (xs ! i)"
    with assms(1,2) have "cmp x (xs ! j) \<or> cmp (xs ! j) (xs ! i)"
      by (rule less_between)
    with a n show False
      by simp
  qed
qed

text \<open>
  The equal range brackets the elements equivalent to \<open>x\<close>, whatever the comparator.
\<close>

lemma matches_equivalent_equal_range:
  assumes lo: "partition_point xs 0 (length xs) (\<lambda>v. cmp v x) lo"
    and hi: "partition_point xs 0 (length xs) (\<lambda>v. \<not> cmp x v) hi"
  shows "matches (equivalent cmp) x xs = hi - lo"
proof -
  have "{i. i < length xs \<and> equivalent cmp x (xs ! i)} = {lo..<hi}"
  proof (intro set_eqI iffI)
    fix i
    assume "i \<in> {i. i < length xs \<and> equivalent cmp x (xs ! i)}"
    then have i: "i < length xs" "\<not> cmp x (xs ! i)" "\<not> cmp (xs ! i) x"
      by (simp_all add: equivalent_def)
    from lo i(3) have "lo \<le> i"
      unfolding partition_point_def by (metis le0 not_le)
    moreover from hi i(1,2) have "i < hi"
      unfolding partition_point_def by (metis add_0 not_le)
    ultimately show "i \<in> {lo..<hi}"
      by simp
  next
    fix i
    assume "i \<in> {lo..<hi}"
    then have i: "lo \<le> i" "i < hi"
      by simp_all
    from hi i(2) have n: "i < length xs" and "\<not> cmp x (xs ! i)"
      by (simp_all add: partition_point_def)
    moreover from lo i(1) n have "\<not> cmp (xs ! i) x"
      by (simp add: partition_point_def)
    ultimately show "i \<in> {i. i < length xs \<and> equivalent cmp x (xs ! i)}"
      by (simp add: equivalent_def)
  qed
  then show ?thesis
    by (simp add: matches_def length_filter_conv_card)
qed

lemma is_majority_element_sorted_by:
  assumes "transp cmp" and "transp (equivalent cmp)" and "sorted_by cmp xs"
    and "length xs < 2 ^ 63"
  shows "is_majority_element xs x cmp = Inr (length xs div 2 < matches (equivalent cmp) x xs)"
proof -
  from lower_bound_partition_point [of 0 "length xs" xs cmp x]
    sorted_partitioned_lower [OF assms(1,2,3)]
  obtain lo where lo: "lower_bound xs 0 (length xs) x cmp = Inr lo"
    "partition_point xs 0 (length xs) (\<lambda>v. cmp v x) lo"
    by auto
  from upper_bound_partition_point [of 0 "length xs" xs cmp x]
    sorted_partitioned_upper [OF assms(1,2,3)]
  obtain hi where hi: "upper_bound xs 0 (length xs) x cmp = Inr hi"
    "partition_point xs 0 (length xs) (\<lambda>v. \<not> cmp x v) hi"
    by auto
  from lo(1) hi(1) have "equal_range xs x cmp = Inr (lo, hi)"
    by (simp add: equal_range_def)
  from is_majority_element_distance [OF this assms(4)]
  have "is_majority_element xs x cmp = Inr (int (length xs) div 2 < int hi - int lo)" .
  moreover have "(int (length xs) div 2 < int hi - int lo) = (length xs div 2 < hi - lo)"
    by linarith
  moreover from lo(2) hi(2) have "matches (equivalent cmp) x xs = hi - lo"
    by (rule matches_equivalent_equal_range)
  ultimately show ?thesis
    by simp
qed

text \<open>Under a strict total order the elements equivalent to \<open>x\<close> are its occurrences.\<close>

lemma matches_equivalent_total:
  assumes "irreflp cmp" and "totalp cmp"
  shows "matches (equivalent cmp) x xs = count_list xs x"
proof -
  have "equivalent cmp x e = (e = x)" for e
    using irreflpD [OF assms(1), of x] totalpD [OF assms(2), of x e]
    by (auto simp add: equivalent_def)
  then have "equivalent cmp x = (\<lambda>e. e = x)"
    by (simp add: fun_eq_iff)
  moreover have "count_list xs x = length (filter (\<lambda>e. e = x) xs)"
    by (induction xs) simp_all
  ultimately show ?thesis
    by (simp add: matches_def)
qed

lemma strict_total_order_std_less:
  "irreflp (std_less :: nat \<Rightarrow> nat \<Rightarrow> bool)"
  "transp (std_less :: nat \<Rightarrow> nat \<Rightarrow> bool)"
  "totalp (std_less :: nat \<Rightarrow> nat \<Rightarrow> bool)"
  "transp (equivalent (std_less :: nat \<Rightarrow> nat \<Rightarrow> bool))"
  by (auto intro!: irreflpI transpI totalpI simp add: std_less_def equivalent_def)

lemma strict_weak_order_less_by_tens:
  "irreflp less_by_tens" "transp less_by_tens" "transp (equivalent less_by_tens)"
  by (auto intro!: irreflpI transpI simp add: less_by_tens_def equivalent_def)

section \<open>The vote finds the majority\<close>

text \<open>
  C1. Let the comparator be an equivalence relation and the range shorter than
  \<open>2 ^ 64\<close>, so that its length fits a \<open>size_t\<close>. If some value \<open>v\<close> is equal,
  by the comparator, to more than half of the elements, then \<open>majority_element\<close>
  returns an iterator inside the range, never \<open>end\<close>, whose element is equal to
  \<open>v\<close>.
\<close>

theorem majority_element_finds_majority:
  assumes "equivp cmp" and "length xs < 2 ^ 64"
    and "length xs < 2 * matches cmp v xs"
  shows "\<exists>p. majority_element xs cmp = Inr p \<and> p < length xs \<and> cmp v (xs ! p)"
proof -
  from vote_scan_vote_inv [OF assms(1,2)] obtain candidate confidence
    where scan: "vote_scan xs cmp (length xs) = Inr (candidate, confidence)"
      and inv: "vote_inv xs cmp (length xs) (candidate, confidence)"
    by auto
  from inv have "vote_bound xs cmp (length xs) (candidate, confidence) v"
    by (simp add: vote_inv_def)
  with assms(3) have c: "confidence \<noteq> 0" "cmp (xs ! candidate) v"
    by (auto simp add: vote_bound_def split: if_splits)
  with inv have cand: "candidate < length xs"
    by (simp add: vote_inv_def)
  from assms(1) c(2) have m: "matches cmp (xs ! candidate) xs = matches cmp v xs"
    by (rule matches_equivp)
  have "matches cmp v xs \<le> length xs"
    by (rule matches_le_length)
  with assms(2) have
    "((of_nat (length xs) :: size_t) div 2 < of_nat (matches cmp v xs)) =
     (length xs div 2 < matches cmp v xs)"
    by (rule size_t_threshold)
  moreover from assms(3) have "length xs div 2 < matches cmp v xs"
    by linarith
  ultimately have "majority_element xs cmp = Inr candidate"
    using m majority_element_candidate [OF scan cand] by simp
  moreover from assms(1) c(2) have "cmp v (xs ! candidate)"
    by (rule equivp_symp)
  ultimately show ?thesis
    using cand by blast
qed

theorem majority_element_finds_majority_witness:
  "equivp (equal_to :: nat \<Rightarrow> nat \<Rightarrow> bool)
   \<and> length [3, 3, 4, 2, 3, 3, 4, 2, 3 :: nat] < 2 ^ 64
   \<and> length [3, 3, 4, 2, 3, 3, 4, 2, 3 :: nat] < 2 * matches equal_to 3 [3, 3, 4, 2, 3, 3, 4, 2, 3 :: nat]
   \<and> (\<exists>p. majority_element [3, 3, 4, 2, 3, 3, 4, 2, 3 :: nat] equal_to = Inr p
          \<and> p < length [3, 3, 4, 2, 3, 3, 4, 2, 3 :: nat]
          \<and> equal_to 3 ([3, 3, 4, 2, 3, 3, 4, 2, 3 :: nat] ! p))"
proof -
  let ?xs = "[3, 3, 4, 2, 3, 3, 4, 2, 3 :: nat]"
  have h1: "equivp (equal_to :: nat \<Rightarrow> nat \<Rightarrow> bool)"
    by (rule equivp_equal_to)
  have h2: "length ?xs < 2 ^ 64"
    by simp
  have h3: "length ?xs < 2 * matches equal_to 3 ?xs"
    by (simp add: matches_def equal_to_def)
  from h1 h2 h3 majority_element_finds_majority [OF h1 h2 h3] show ?thesis
    by blast
qed

text \<open>
  C2. Let the range be shorter than \<open>2 ^ 64\<close>. If no element of the range matches,
  by the comparator, more than \<open>length / 2\<close> of its elements (integer division), then
  \<open>majority_element\<close> returns the sentinel \<open>end\<close>. With \<open>equal_to\<close> as the
  comparator, \<open>matches equal_to v xs\<close> is the number of occurrences of \<open>v\<close>.
\<close>

theorem majority_element_no_majority:
  assumes "length xs < 2 ^ 64"
    and "\<forall>v \<in> set xs. matches cmp v xs \<le> length xs div 2"
  shows "majority_element xs cmp = Inr (length xs)"
proof (cases "xs = []")
  case True
  then show ?thesis
    by (simp add: majority_element_Nil)
next
  case False
  then obtain candidate confidence
    where scan: "vote_scan xs cmp (length xs) = Inr (candidate, confidence)"
      and cand: "candidate < length xs"
    by (rule vote_scan_candidate)
  from cand assms(2) have le: "matches cmp (xs ! candidate) xs \<le> length xs div 2"
    by simp
  then have "matches cmp (xs ! candidate) xs \<le> length xs"
    by simp
  with assms(1) have
    "((of_nat (length xs) :: size_t) div 2 < of_nat (matches cmp (xs ! candidate) xs)) =
     (length xs div 2 < matches cmp (xs ! candidate) xs)"
    by (rule size_t_threshold)
  with le majority_element_candidate [OF scan cand] show ?thesis
    by simp
qed

theorem majority_element_no_majority_witness:
  "length [1, 2, 3, 4 :: nat] < 2 ^ 64
   \<and> matches equal_to 1 [1, 2, 3, 4 :: nat] \<le> length [1, 2, 3, 4 :: nat] div 2
   \<and> matches equal_to 2 [1, 2, 3, 4 :: nat] \<le> length [1, 2, 3, 4 :: nat] div 2
   \<and> matches equal_to 3 [1, 2, 3, 4 :: nat] \<le> length [1, 2, 3, 4 :: nat] div 2
   \<and> matches equal_to 4 [1, 2, 3, 4 :: nat] \<le> length [1, 2, 3, 4 :: nat] div 2
   \<and> majority_element [1, 2, 3, 4 :: nat] equal_to = Inr (length [1, 2, 3, 4 :: nat])"
proof -
  let ?xs = "[1, 2, 3, 4 :: nat]"
  have h1: "length ?xs < 2 ^ 64"
    by simp
  have m: "matches equal_to 1 ?xs \<le> length ?xs div 2" "matches equal_to 2 ?xs \<le> length ?xs div 2"
    "matches equal_to 3 ?xs \<le> length ?xs div 2" "matches equal_to 4 ?xs \<le> length ?xs div 2"
    by (simp_all add: matches_def equal_to_def)
  then have h2: "\<forall>v \<in> set ?xs. matches equal_to v ?xs \<le> length ?xs div 2"
    by simp
  from h1 m majority_element_no_majority [OF h1 h2] show ?thesis
    by blast
qed

section \<open>The check on a sorted range counts the equivalent elements\<close>

text \<open>
  C3. The number of elements equal to \<open>x\<close> is not what \<open>is_majority_element\<close>
  compares with half the length when distinct values are equivalent under the
  comparator. The range \<open>[10, 11, 12, 20, 21]\<close> is sorted by \<open>less_by_tens\<close> and
  does not contain \<open>15\<close>, yet \<open>is_majority_element\<close> is true for \<open>x = 15\<close>:
  the equal range brackets the three elements with the same tens, and \<open>3 > 5 / 2\<close>.
\<close>

theorem is_majority_element_counts_counterexample:
  "sorted_by less_by_tens [10, 11, 12, 20, 21]
   \<and> is_majority_element [10, 11, 12, 20, 21] 15 less_by_tens = Inr True
   \<and> count_list [10, 11, 12, 20, 21 :: nat] 15 = 0
   \<and> is_majority_element [10, 11, 12, 20, 21] 15 less_by_tens
       \<noteq> Inr (length [10, 11, 12, 20, 21 :: nat] div 2 < count_list [10, 11, 12, 20, 21 :: nat] 15)"
proof -
  have "sorted_by less_by_tens [10, 11, 12, 20, 21]"
    by (simp add: sorted_by_def less_by_tens_def)
  moreover have "is_majority_element [10, 11, 12, 20, 21] 15 less_by_tens = Inr True"
    by code_simp
  moreover have "count_list [10, 11, 12, 20, 21 :: nat] 15 = 0"
    by simp
  ultimately show ?thesis
    by simp
qed

text \<open>
  C3, amended. Let the comparator be transitive with a transitive equivalence, as every
  strict weak ordering is; let the range be sorted by it and shorter than \<open>2 ^ 63\<close>,
  so that its length fits a \<open>ptrdiff_t\<close>. Then \<open>is_majority_element\<close> is true
  exactly when the number of elements equivalent to \<open>x\<close> under the comparator
  (neither less than \<open>x\<close> nor \<open>x\<close> less than them) exceeds \<open>length / 2\<close>
  (integer division). When the comparator is moreover a strict total order, as
  \<open>std::less\<close> is on integers, these are the elements equal to \<open>x\<close>, and the
  result agrees with the count of the occurrences of \<open>x\<close>.
\<close>

theorem is_majority_element_counts_equivalent:
  assumes "transp cmp" and "transp (equivalent cmp)" and "sorted_by cmp xs"
    and "length xs < 2 ^ 63"
  shows "is_majority_element xs x cmp = Inr (length xs div 2 < matches (equivalent cmp) x xs)
    \<and> (irreflp cmp \<and> totalp cmp \<longrightarrow>
         is_majority_element xs x cmp = Inr (length xs div 2 < count_list xs x))"
proof -
  from assms have
    e: "is_majority_element xs x cmp = Inr (length xs div 2 < matches (equivalent cmp) x xs)"
    by (rule is_majority_element_sorted_by)
  have "is_majority_element xs x cmp = Inr (length xs div 2 < count_list xs x)"
    if "irreflp cmp" "totalp cmp"
    using e matches_equivalent_total [OF that, of x xs] by simp
  with e show ?thesis
    by simp
qed

theorem is_majority_element_counts_equivalent_witness:
  "transp (std_less :: nat \<Rightarrow> nat \<Rightarrow> bool)
   \<and> transp (equivalent (std_less :: nat \<Rightarrow> nat \<Rightarrow> bool))
   \<and> sorted_by std_less [1, 1, 1, 2, 2 :: nat]
   \<and> length [1, 1, 1, 2, 2 :: nat] < 2 ^ 63
   \<and> irreflp (std_less :: nat \<Rightarrow> nat \<Rightarrow> bool)
   \<and> totalp (std_less :: nat \<Rightarrow> nat \<Rightarrow> bool)
   \<and> is_majority_element [1, 1, 1, 2, 2 :: nat] 1 std_less = Inr True
   \<and> length [1, 1, 1, 2, 2 :: nat] div 2 < matches (equivalent std_less) 1 [1, 1, 1, 2, 2 :: nat]
   \<and> length [1, 1, 1, 2, 2 :: nat] div 2 < count_list [1, 1, 1, 2, 2 :: nat] 1
   \<and> transp less_by_tens
   \<and> transp (equivalent less_by_tens)
   \<and> sorted_by less_by_tens [10, 11, 12, 20, 21]
   \<and> length [10, 11, 12, 20, 21 :: nat] < 2 ^ 63
   \<and> is_majority_element [10, 11, 12, 20, 21] 15 less_by_tens = Inr True
   \<and> length [10, 11, 12, 20, 21 :: nat] div 2
       < matches (equivalent less_by_tens) 15 [10, 11, 12, 20, 21]"
proof -
  let ?xs = "[1, 1, 1, 2, 2 :: nat]"
  let ?ys = "[10, 11, 12, 20, 21 :: nat]"
  note h = strict_total_order_std_less
  have s: "sorted_by std_less ?xs"
    by (simp add: sorted_by_def std_less_def)
  have n: "length ?xs < 2 ^ 63"
    by simp
  have c: "length ?xs div 2 < count_list ?xs 1"
    by simp
  have m: "length ?xs div 2 < matches (equivalent std_less) 1 ?xs"
    by (simp add: matches_def equivalent_def std_less_def)
  from is_majority_element_counts_equivalent [OF h(2) h(4) s n, of 1] m
  have r: "is_majority_element ?xs 1 std_less = Inr True"
    by simp
  note w = strict_weak_order_less_by_tens
  have s': "sorted_by less_by_tens ?ys"
    by (simp add: sorted_by_def less_by_tens_def)
  have n': "length ?ys < 2 ^ 63"
    by simp
  have m': "length ?ys div 2 < matches (equivalent less_by_tens) 15 ?ys"
    by (simp add: matches_def equivalent_def less_by_tens_def)
  from is_majority_element_counts_equivalent [OF w(2) w(3) s' n', of 15] m'
  have r': "is_majority_element ?ys 15 less_by_tens = Inr True"
    by simp
  from h s n c m r w(2,3) s' n' m' r' show ?thesis
    by blast
qed

section \<open>The threshold\<close>

text \<open>
  C4. Both functions compare with the floor of half the length, strictly. For a range
  \<open>xs\<close> shorter than \<open>2 ^ 64\<close> whose scan ends with \<open>candidate\<close>,
  \<open>majority_element\<close> returns the candidate exactly when the number of its matches
  exceeds \<open>length xs div 2\<close>; for a range \<open>ys\<close> shorter than \<open>2 ^ 63\<close> whose
  equal range for \<open>x\<close> is \<open>[lo, hi)\<close>, \<open>is_majority_element\<close> is true exactly
  when \<open>hi - lo\<close> exceeds \<open>length ys div 2\<close>. For every length, odd or even, this is
  the same as more than half of the length; a value that fills exactly half of the positions
  is rejected by both; and \<open>is_majority_element([1,1,2,2,2], 1)\<close> is false.
\<close>

theorem floor_half_threshold:
  assumes "length xs < 2 ^ 64"
    and "vote_scan xs cmp (length xs) = Inr (candidate, confidence)"
    and "length ys < 2 ^ 63"
    and "equal_range ys x ord = Inr (lo, hi)"
  shows "majority_element xs cmp =
           Inr (if length xs div 2 < matches cmp (xs ! candidate) xs then candidate else length xs)
    \<and> is_majority_element ys x ord = Inr (int (length ys) div 2 < int hi - int lo)
    \<and> (length xs div 2 < matches cmp (xs ! candidate) xs) =
        (length xs < 2 * matches cmp (xs ! candidate) xs)
    \<and> (int (length ys) div 2 < int hi - int lo) = (int (length ys) < 2 * (int hi - int lo))
    \<and> (2 * matches cmp (xs ! candidate) xs = length xs \<longrightarrow>
         majority_element xs cmp = Inr (length xs))
    \<and> (2 * (int hi - int lo) = int (length ys) \<longrightarrow> is_majority_element ys x ord = Inr False)
    \<and> is_majority_element [1, 1, 2, 2, 2 :: nat] 1 std_less = Inr False"
proof -
  let ?m = "matches cmp (xs ! candidate) xs"
  have m: "majority_element xs cmp = Inr (if length xs div 2 < ?m then candidate else length xs)"
  proof (cases "xs = []")
    case True
    then show ?thesis
      by (simp add: majority_element_Nil matches_def)
  next
    case False
    then obtain candidate' confidence'
      where c: "vote_scan xs cmp (length xs) = Inr (candidate', confidence')"
        "candidate' < length xs"
      by (rule vote_scan_candidate)
    with assms(2) have cand: "candidate < length xs"
      by simp
    have "?m \<le> length xs"
      by (rule matches_le_length)
    with assms(1) have
      "((of_nat (length xs) :: size_t) div 2 < of_nat ?m) = (length xs div 2 < ?m)"
      by (rule size_t_threshold)
    with majority_element_candidate [OF assms(2) cand] show ?thesis
      by simp
  qed
  have i: "is_majority_element ys x ord = Inr (int (length ys) div 2 < int hi - int lo)"
    using assms(4,3) by (rule is_majority_element_distance)
  have a1: "(length xs div 2 < ?m) = (length xs < 2 * ?m)"
    by linarith
  have a2: "(int (length ys) div 2 < int hi - int lo) = (int (length ys) < 2 * (int hi - int lo))"
    by presburger
  have e: "is_majority_element [1, 1, 2, 2, 2 :: nat] 1 std_less = Inr False"
    by code_simp
  from m a1 have t1: "2 * ?m = length xs \<longrightarrow> majority_element xs cmp = Inr (length xs)"
    by simp
  from i a2 have t2: "2 * (int hi - int lo) = int (length ys) \<longrightarrow>
      is_majority_element ys x ord = Inr False"
    by simp
  from m i a1 a2 t1 t2 e show ?thesis
    by (intro conjI)
qed

theorem floor_half_threshold_witness:
  "length [1, 1, 2, 2 :: nat] < 2 ^ 64
   \<and> vote_scan [1, 1, 2, 2 :: nat] equal_to (length [1, 1, 2, 2 :: nat]) = Inr (0, 0)
   \<and> length [1, 1, 2, 2 :: nat] < 2 ^ 63
   \<and> equal_range [1, 1, 2, 2 :: nat] 1 std_less = Inr (0, 2)
   \<and> 2 * matches equal_to ([1, 1, 2, 2 :: nat] ! 0) [1, 1, 2, 2 :: nat] = length [1, 1, 2, 2 :: nat]
   \<and> majority_element [1, 1, 2, 2 :: nat] equal_to = Inr (length [1, 1, 2, 2 :: nat])
   \<and> 2 * (int 2 - int 0) = int (length [1, 1, 2, 2 :: nat])
   \<and> is_majority_element [1, 1, 2, 2 :: nat] 1 std_less = Inr False"
proof -
  let ?xs = "[1, 1, 2, 2 :: nat]"
  have h1: "length ?xs < 2 ^ 64"
    by simp
  have h2: "vote_scan ?xs equal_to (length ?xs) = Inr (0, 0)"
    by code_simp
  have h3: "length ?xs < 2 ^ 63"
    by simp
  have h4: "equal_range ?xs 1 std_less = Inr (0, 2)"
    by code_simp
  have t1: "2 * matches equal_to (?xs ! 0) ?xs = length ?xs"
    by (simp add: matches_def equal_to_def)
  have t2: "2 * (int 2 - int 0) = int (length ?xs)"
    by simp
  from floor_half_threshold [OF h1 h2 h3 h4] t1 t2
  have "majority_element ?xs equal_to = Inr (length ?xs)"
    and "is_majority_element ?xs 1 std_less = Inr False"
    by blast+
  with h1 h2 h3 h4 t1 t2 show ?thesis
    by blast
qed

section \<open>The confidence counter\<close>

text \<open>
  C8. At every iteration of the scanning loop, whatever the range and the comparator,
  the step taken from the state reached is one of the three branches of the source, and
  \<open>--confidence\<close> is taken only from a confidence other than zero: read as integers,
  the new confidence is the old one minus one, so the \<open>size_t\<close> never wraps around
  below zero. From a confidence of zero the candidate is reset and the confidence set
  to one.
\<close>

theorem confidence_never_wraps_below_zero:
  assumes "it < length xs"
    and "vote_scan xs cmp it = Inr (candidate, confidence)"
  shows "vote_body xs cmp it (candidate, confidence) =
           Inr (if confidence = 0 then (it, 1)
                else if cmp (xs ! candidate) (xs ! it) then (candidate, confidence + 1)
                else (candidate, confidence - 1))
    \<and> (confidence \<noteq> 0 \<and> \<not> cmp (xs ! candidate) (xs ! it) \<longrightarrow>
         0 < uint confidence \<and> uint (confidence - 1) = uint confidence - 1)"
proof -
  from assms(1) have "it \<le> length xs"
    by simp
  from vote_scan_total [OF this, of cmp] assms(2)
  have inv: "scan_inv xs it (candidate, confidence)"
    by simp
  have "candidate < length xs" if "confidence \<noteq> 0"
    using that inv assms(1) by (simp add: scan_inv_def split: if_splits)
  with assms(1) have
    "vote_body xs cmp it (candidate, confidence) =
       Inr (if confidence = 0 then (it, 1)
            else if cmp (xs ! candidate) (xs ! it) then (candidate, confidence + 1)
            else (candidate, confidence - 1))"
    by (simp add: deref_def)
  moreover have "0 < uint confidence \<and> uint (confidence - 1) = uint confidence - 1"
    if "confidence \<noteq> 0"
  proof -
    from that have "uint confidence \<noteq> 0"
      by (simp add: uint_0_iff)
    moreover have "0 \<le> uint confidence"
      by (rule uint_nonnegative)
    ultimately have "0 < uint confidence"
      by linarith
    moreover from this have "uint (confidence - 1) = uint confidence - 1"
      by (simp add: uint_sub_if')
    ultimately show ?thesis
      by simp
  qed
  ultimately show ?thesis
    by simp
qed

theorem confidence_never_wraps_below_zero_witness:
  "2 < length [1, 1, 2 :: nat]
   \<and> vote_scan [1, 1, 2 :: nat] equal_to 2 = Inr (0, 2)
   \<and> vote_body [1, 1, 2 :: nat] equal_to 2 (0, 2) = Inr (0, 1)
   \<and> (2 :: size_t) \<noteq> 0 \<and> \<not> equal_to ([1, 1, 2 :: nat] ! 0) ([1, 1, 2 :: nat] ! 2)
   \<and> 0 < uint (2 :: size_t) \<and> uint ((2 :: size_t) - 1) = uint (2 :: size_t) - 1"
proof -
  let ?xs = "[1, 1, 2 :: nat]"
  have h1: "2 < length ?xs"
    by simp
  have h2: "vote_scan ?xs equal_to 2 = Inr (0, 2)"
    by code_simp
  have b: "(2 :: size_t) \<noteq> 0" "\<not> equal_to (?xs ! 0) (?xs ! 2)"
    by (simp_all add: equal_to_def)
  from confidence_never_wraps_below_zero [OF h1 h2] b
  have "vote_body ?xs equal_to 2 (0, 2) = Inr (0, 1)"
    and "0 < uint (2 :: size_t) \<and> uint ((2 :: size_t) - 1) = uint (2 :: size_t) - 1"
    by simp_all
  with h1 h2 b show ?thesis
    by blast
qed

section \<open>Claims that hold for every range and every comparator\<close>

text \<open>
  C5. On the empty range \<open>majority_element\<close> returns the sentinel \<open>end\<close> as an
  ordinary result and no fault: the confirming loop leaves \<open>nmatches = 0\<close> and
  \<open>ntotal = 0\<close>, and \<open>0 / 2 < 0\<close> is false.
\<close>

theorem majority_element_empty:
  "majority_element [] cmp = Inr (length [])
   \<and> for_each 0 (length []) (count_body [] cmp candidate) (0, 0) = Inr (0, 0)
   \<and> \<not> ((0 :: size_t) div 2 < 0)"
  by (simp add: majority_element_Nil for_each_stop)

text \<open>
  C7. No call of \<open>majority_element\<close> reads through the sentinel \<open>end\<close>: for every
  range and every comparator the model returns an iterator and never the fault. On a
  non-empty range the scanning loop leaves a candidate inside the range, which is the
  iterator the confirming loop reads through.
\<close>

theorem majority_element_never_derefs_end:
  "(\<exists>p. majority_element xs cmp = Inr p)
   \<and> (xs \<noteq> [] \<longrightarrow>
        (\<exists>candidate confidence.
           vote_scan xs cmp (length xs) = Inr (candidate, confidence) \<and> candidate < length xs))"
proof (cases "xs = []")
  case True
  then show ?thesis by (simp add: majority_element_Nil)
next
  case False
  then obtain candidate confidence
    where c: "vote_scan xs cmp (length xs) = Inr (candidate, confidence)" "candidate < length xs"
    by (rule vote_scan_candidate)
  from majority_element_candidate [OF c] c False show ?thesis by blast
qed

theorem majority_element_never_derefs_end_witness:
  "[7 :: nat] \<noteq> []
   \<and> (\<exists>p. majority_element [7 :: nat] equal_to = Inr p)
   \<and> (\<exists>candidate confidence.
         vote_scan [7 :: nat] equal_to (length [7 :: nat]) = Inr (candidate, confidence)
         \<and> candidate < length [7 :: nat])"
  using majority_element_never_derefs_end [of "[7 :: nat]" equal_to] by simp

text \<open>
  C9. A result of \<open>majority_element\<close> other than \<open>end\<close> is an iterator inside
  \<open>[begin, end)\<close>: an offset below the length of the range, through which an
  element of the range can be read.
\<close>

theorem majority_element_result_in_range:
  assumes "majority_element xs cmp = Inr p" and "p \<noteq> length xs"
  shows "p < length xs \<and> deref xs p = Inr (xs ! p)"
proof (cases "xs = []")
  case True
  with assms show ?thesis by (simp add: majority_element_Nil)
next
  case False
  then obtain candidate confidence
    where c: "vote_scan xs cmp (length xs) = Inr (candidate, confidence)" "candidate < length xs"
    by (rule vote_scan_candidate)
  from majority_element_candidate [OF c] assms c(2) have "p < length xs"
    by (simp split: if_splits)
  then show ?thesis
    by (simp add: deref_def)
qed

theorem majority_element_result_in_range_witness:
  "majority_element [7 :: nat] equal_to = Inr 0 \<and> 0 \<noteq> length [7 :: nat]
   \<and> 0 < length [7 :: nat] \<and> deref [7 :: nat] 0 = Inr 7"
proof -
  have r: "majority_element [7 :: nat] equal_to = Inr 0"
    by code_simp
  have n: "(0 :: nat) \<noteq> length [7 :: nat]"
    by simp
  from r n majority_element_result_in_range [OF r n] show ?thesis
    by simp
qed

text \<open>
  C10. On the empty range \<open>is_majority_element\<close> is false for every value and every
  comparator: the equal range is empty, and \<open>0 > 0\<close> is false.
\<close>

theorem is_majority_element_empty:
  "is_majority_element [] x cmp = Inr False \<and> equal_range [] x cmp = Inr (0, 0)"
  by (simp add: is_majority_element_def equal_range_def lower_bound.simps upper_bound.simps
      distance_def)

text \<open>
  C6. The overloads without a comparator are the overloads with one, at
  \<open>std::equal_to\<close> (the equality of the element type) and at \<open>std::less\<close> (its
  order).
\<close>

theorem default_comparator_overloads:
  "majority_element_default xs = majority_element xs (\<lambda>a b. a = b)
   \<and> is_majority_element_default ys x = is_majority_element ys x (\<lambda>a b. a < b)"
proof -
  have "equal_to = (\<lambda>(a :: 'a) b. a = b)"
    by (simp add: fun_eq_iff equal_to_def)
  moreover have "std_less = (\<lambda>(a :: 'b) b. a < b)"
    by (simp add: fun_eq_iff std_less_def)
  ultimately show ?thesis
    by (simp add: majority_element_default_def is_majority_element_default_def)
qed

end
